theory Spec2Isabelle
  imports Main "HOL-Library.Char_ord" "HOL-Library.List_Lexorder"
begin

section \<open>Cell values and the typed comparator\<close>

text \<open>
  The lookup functions of \<^verbatim>\<open>pycel/lib/lookup.py\<close> work on evaluated cell values: numbers,
  text, booleans, error strings such as \<^verbatim>\<open>#N/A\<close>, and \<^verbatim>\<open>None\<close> for an empty cell.
  Numbers are modelled as Python's unbounded integers.
\<close>

datatype error_code = NA_ERROR | REF_ERROR | VALUE_ERROR | DIV0 | NAME_ERROR | NULL_ERROR | NUM_ERROR

datatype cell = Empty | Number int | Text string | Boolean bool | Error error_code

text \<open>Python exceptions that the modelled code can raise.\<close>

datatype py_error = IndexError | ValueError

text \<open>\<^verbatim>\<open>value in ERROR_CODES\<close>\<close>

fun in_ERROR_CODES :: "cell \<Rightarrow> bool" where
  "in_ERROR_CODES (Error e) = True"
| "in_ERROR_CODES _ = False"

text \<open>
  Modelled from the spec: \<^verbatim>\<open>ExcelCmp\<close> of \<^verbatim>\<open>pycel.excelutil\<close>, which is not among the
  sources. The spec's comparison classes are Numeric (numbers and booleans, a boolean
  counting as 0 or 1), Textual (compared without regard to case) and Error (an error equal
  only to itself, in some fixed order). Values of different classes are neither less than
  nor equal to each other. An absence marker stands for an empty cell and is wrapped as the
  number 0: it is of the Numeric class, which is why the source tests \<^verbatim>\<open>is None\<close> after
  the walk back over other classes, and it is below every positive target. The source shows
  the fields \<^verbatim>\<open>cmp_type\<close> and \<^verbatim>\<open>value\<close>.
\<close>

datatype cmp_class = Numeric | Textual | ErrorClass

datatype cmp_key = NumKey int | TextKey string | ErrKey error_code

datatype excel_cmp = MkExcelCmp (cmp_type: cmp_class) (cmp_value: cmp_key)

definition lower_char :: "char \<Rightarrow> char" where
  "lower_char c = (let n = (of_char c :: nat) in if 65 \<le> n \<and> n \<le> 90 then char_of (n + 32) else c)"

definition lower :: "string \<Rightarrow> string" where
  "lower s = map lower_char s"

fun ExcelCmp :: "cell \<Rightarrow> excel_cmp" where
  "ExcelCmp Empty = MkExcelCmp Numeric (NumKey 0)"
| "ExcelCmp (Number n) = MkExcelCmp Numeric (NumKey n)"
| "ExcelCmp (Text s) = MkExcelCmp Textual (TextKey (lower s))"
| "ExcelCmp (Boolean b) = MkExcelCmp Numeric (NumKey (if b then 1 else 0))"
| "ExcelCmp (Error e) = MkExcelCmp ErrorClass (ErrKey e)"

fun err_rank :: "error_code \<Rightarrow> nat" where
  "err_rank NULL_ERROR = 0"
| "err_rank DIV0 = 1"
| "err_rank VALUE_ERROR = 2"
| "err_rank REF_ERROR = 3"
| "err_rank NAME_ERROR = 4"
| "err_rank NUM_ERROR = 5"
| "err_rank NA_ERROR = 6"

fun key_less :: "cmp_key \<Rightarrow> cmp_key \<Rightarrow> bool" where
  "key_less (NumKey a) (NumKey b) = (a < b)"
| "key_less (TextKey a) (TextKey b) = (a < b)"
| "key_less (ErrKey a) (ErrKey b) = (err_rank a < err_rank b)"
| "key_less _ _ = False"

text \<open>\<^verbatim>\<open>a < b\<close> and \<^verbatim>\<open>a == b\<close> on wrapped values.\<close>

definition cmp_less :: "excel_cmp \<Rightarrow> excel_cmp \<Rightarrow> bool" where
  "cmp_less a b = (cmp_type a = cmp_type b \<and> key_less (cmp_value a) (cmp_value b))"

definition cmp_equal :: "excel_cmp \<Rightarrow> excel_cmp \<Rightarrow> bool" where
  "cmp_equal a b = (cmp_type a = cmp_type b \<and> cmp_value a = cmp_value b)"

definition cmp_le :: "excel_cmp \<Rightarrow> excel_cmp \<Rightarrow> bool" where
  "cmp_le a b = (cmp_less a b \<or> cmp_equal a b)"

section \<open>The match engine\<close>

text \<open>
  \<^verbatim>\<open>bisect_right(a, x, lo, hi)\<close> of Python's standard library: the loop
  \<^verbatim>\<open>while lo < hi: mid = (lo + hi) // 2; if x < a[mid]: hi = mid else: lo = mid + 1\<close>,
  returning \<^verbatim>\<open>lo\<close>. Every index read is below \<^verbatim>\<open>hi\<close>, and the only caller passes
  \<^verbatim>\<open>hi \<le> len(a)\<close>.
\<close>

function bisect_right :: "cell list \<Rightarrow> excel_cmp \<Rightarrow> nat \<Rightarrow> nat \<Rightarrow> nat" where
  "bisect_right a x lo hi =
     (if lo < hi then
        (let mid = (lo + hi) div 2 in
         if cmp_less x (ExcelCmp (a ! mid)) then bisect_right a x lo mid
         else bisect_right a x (mid + 1) hi)
      else lo)"
  by pat_completeness auto
termination
  by (relation "measure (\<lambda>(a, x, lo, hi). hi - lo)") auto

text \<open>\<^verbatim>\<open>while lo < len(lookup_array) and lookup_array[lo] is None: lo += 1\<close>\<close>

function skip_lo :: "cell list \<Rightarrow> nat \<Rightarrow> nat" where
  "skip_lo a lo = (if lo < length a \<and> a ! lo = Empty then skip_lo a (lo + 1) else lo)"
  by pat_completeness auto
termination
  by (relation "measure (\<lambda>(a, lo). length a - lo)") auto

text \<open>\<^verbatim>\<open>while hi > 0 and lookup_array[hi - 1] is None: hi -= 1\<close>\<close>

function skip_hi :: "cell list \<Rightarrow> nat \<Rightarrow> nat" where
  "skip_hi a hi = (if hi > 0 \<and> a ! (hi - 1) = Empty then skip_hi a (hi - 1) else hi)"
  by pat_completeness auto
termination
  by (relation "measure (\<lambda>(a, hi). hi)") auto

text \<open>
  \<^verbatim>\<open>while result and lookup_value.cmp_type != ExcelCmp(lookup_array[result - 1]).cmp_type:
  result -= 1\<close>
\<close>

function walk_back :: "excel_cmp \<Rightarrow> cell list \<Rightarrow> nat \<Rightarrow> nat" where
  "walk_back lv a result =
     (if result \<noteq> 0 \<and> cmp_type lv \<noteq> cmp_type (ExcelCmp (a ! (result - 1)))
      then walk_back lv a (result - 1) else result)"
  by pat_completeness auto
termination
  by (relation "measure (\<lambda>(lv, a, result). result)") auto

text \<open>
  The three \<^verbatim>\<open>compare(idx, val)\<close> closures. Each may store \<^verbatim>\<open>idx\<close> in \<^verbatim>\<open>result[0]\<close>
  and tells the loop whether to stop; the model passes the stored result through.
\<close>

type_synonym match_result = "error_code + nat"

type_synonym compare = "nat \<Rightarrow> excel_cmp \<Rightarrow> match_result \<Rightarrow> match_result \<times> bool"

definition compare_exact :: "excel_cmp \<Rightarrow> compare" where
  "compare_exact lv idx val res = (if cmp_equal val lv then (Inr idx, True) else (res, False))"

fun text_of :: "cmp_key \<Rightarrow> string" where
  "text_of (TextKey s) = s"
| "text_of _ = []"

definition compare_wild :: "(string \<Rightarrow> bool) \<Rightarrow> compare" where
  "compare_wild re_compare idx val res =
     (if re_compare (text_of (cmp_value val)) then (Inr idx, True) else (res, False))"

definition compare_desc :: "excel_cmp \<Rightarrow> compare" where
  "compare_desc lv idx val res =
     (if cmp_less val lv then (res, True) else (Inr idx, cmp_equal val lv))"

text \<open>
  \<^verbatim>\<open>for i, value in enumerate(lookup_array, 1)\<close>: error values are passed over, every other
  value is wrapped, and \<^verbatim>\<open>compare\<close> is asked only about values of the target's class.
\<close>

fun scan :: "compare \<Rightarrow> excel_cmp \<Rightarrow> nat \<Rightarrow> cell list \<Rightarrow> match_result \<Rightarrow> match_result" where
  "scan cmp lv i [] res = res"
| "scan cmp lv i (v # vs) res =
     (if \<not> in_ERROR_CODES v \<and> cmp_type (ExcelCmp v) = cmp_type lv then
        (case cmp i (ExcelCmp v) res of
           (res', stop) \<Rightarrow> if stop then res' else scan cmp lv (i + 1) vs res')
      else scan cmp lv (i + 1) vs res)"

text \<open>
  The wildcard compiler \<^verbatim>\<open>build_wildcard_re\<close> is not among the sources: it is a parameter.
  Given the target's text it returns no predicate when the text has no wildcard.
\<close>

type_synonym wildcard_re = "string \<Rightarrow> (string \<Rightarrow> bool) option"

text \<open>The source's \<^verbatim>\<open>_match(lookup_value, lookup_array, match_type)\<close>.\<close>

definition xl_match :: "wildcard_re \<Rightarrow> cell \<Rightarrow> cell list \<Rightarrow> int \<Rightarrow> match_result" where
  "xl_match build_wildcard_re lookup_value lookup_array match_type =
     (let lv = ExcelCmp lookup_value in
      if match_type = 1 then
        (let lo = skip_lo lookup_array 0;
             hi = skip_hi lookup_array (length lookup_array);
             result = walk_back lv lookup_array (bisect_right lookup_array lv lo hi)
         in if result = 0 \<or> lookup_array ! (result - 1) = Empty then Inl NA_ERROR
            else Inr result)
      else
        (let compare =
           (if match_type = 0 then
              (if cmp_type lv = Textual then
                 (case build_wildcard_re (text_of (cmp_value lv)) of
                    None \<Rightarrow> compare_exact lv
                  | Some re_compare \<Rightarrow> compare_wild re_compare)
               else compare_exact lv)
            else compare_desc lv)
         in scan compare lv 1 lookup_array (Inl NA_ERROR)))"

text \<open>The candidate position of the ascending search, before the final test.\<close>

definition asc_candidate :: "cell \<Rightarrow> cell list \<Rightarrow> nat" where
  "asc_candidate t S =
     walk_back (ExcelCmp t) S
       (bisect_right S (ExcelCmp t) (skip_lo S 0) (skip_hi S (length S)))"

section \<open>The lookup functions\<close>

text \<open>
  An argument is a single value or an array: a list of rows. \<^verbatim>\<open>list_like\<close> tells them
  apart. The functions are modelled as their bodies, without the \<^verbatim>\<open>excel_helper\<close>
  decorator, which is not among the sources.
\<close>

datatype arg = Scalar cell | Array "cell list list"

fun list_like :: "arg \<Rightarrow> bool" where
  "list_like (Scalar v) = False"
| "list_like (Array rows) = True"

text \<open>Python's \<^verbatim>\<open>xs[i]\<close>: a negative index counts from the end, and out of range it raises.\<close>

definition py_get :: "'a list \<Rightarrow> int \<Rightarrow> py_error + 'a" where
  "py_get xs i =
     (if 0 \<le> i \<and> i < int (length xs) then Inr (xs ! nat i)
      else if i < 0 \<and> - int (length xs) \<le> i then Inr (xs ! nat (int (length xs) + i))
      else Inl IndexError)"

fun py_bind :: "py_error + 'a \<Rightarrow> ('a \<Rightarrow> py_error + 'b) \<Rightarrow> py_error + 'b" where
  "py_bind (Inl e) f = Inl e"
| "py_bind (Inr x) f = f x"

text \<open>A comprehension \<^verbatim>\<open>[f(x) for x in xs]\<close> whose body can raise.\<close>

fun py_map :: "('a \<Rightarrow> py_error + 'b) \<Rightarrow> 'a list \<Rightarrow> py_error + 'b list" where
  "py_map f [] = Inr []"
| "py_map f (x # xs) = py_bind (f x) (\<lambda>y. py_bind (py_map f xs) (\<lambda>ys. Inr (y # ys)))"

text \<open>\<^verbatim>\<open>match_type=bool(range_lookup)\<close>: \<^verbatim>\<open>True == 1\<close> and \<^verbatim>\<open>False == 0\<close>.\<close>

definition match_type_of_bool :: "bool \<Rightarrow> int" where
  "match_type_of_bool b = (if b then 1 else 0)"

definition vlookup :: "wildcard_re \<Rightarrow> cell \<Rightarrow> arg \<Rightarrow> int \<Rightarrow> bool \<Rightarrow> py_error + cell" where
  "vlookup build_wildcard_re lookup_value table_array col_index_num range_lookup =
     (case table_array of
        Scalar v \<Rightarrow> Inr (Error NA_ERROR)
      | Array rows \<Rightarrow>
          if col_index_num \<le> 0 then Inr (Error VALUE_ERROR)
          else py_bind (py_get rows 0) (\<lambda>row0.
            if col_index_num > int (length row0) then Inr (Error REF_ERROR)
            else py_bind (py_map (\<lambda>row. py_get row 0) rows) (\<lambda>column.
              case xl_match build_wildcard_re lookup_value column
                     (match_type_of_bool range_lookup) of
                Inr result_idx \<Rightarrow>
                  py_bind (py_get rows (int result_idx - 1)) (\<lambda>row.
                    py_get row (col_index_num - 1))
              | Inl err \<Rightarrow> Inr (Error err))))"

definition hlookup :: "wildcard_re \<Rightarrow> cell \<Rightarrow> arg \<Rightarrow> int \<Rightarrow> bool \<Rightarrow> py_error + cell" where
  "hlookup build_wildcard_re lookup_value table_array row_index_num range_lookup =
     (case table_array of
        Scalar v \<Rightarrow> Inr (Error NA_ERROR)
      | Array rows \<Rightarrow>
          if row_index_num \<le> 0 then Inr (Error VALUE_ERROR)
          else if row_index_num > int (length rows) then Inr (Error REF_ERROR)
          else py_bind (py_get rows 0) (\<lambda>row0.
            case xl_match build_wildcard_re lookup_value row0
                   (match_type_of_bool range_lookup) of
              Inr result_idx \<Rightarrow>
                py_bind (py_get rows (row_index_num - 1)) (\<lambda>row.
                  py_get row (int result_idx - 1))
            | Inl err \<Rightarrow> Inr (Error err)))"

text \<open>
  The end of \<^verbatim>\<open>lookup\<close>: \<^verbatim>\<open>if isinstance(match_idx, int): return result[match_idx - 1]\<close>,
  \<^verbatim>\<open>else: return match_idx\<close> (the error string).
\<close>

definition lookup_finish :: "match_result \<Rightarrow> cell list \<Rightarrow> py_error + cell" where
  "lookup_finish match_idx result =
     (case match_idx of
        Inr idx \<Rightarrow> py_get result (int idx - 1)
      | Inl err \<Rightarrow> Inr (Error err))"

text \<open>The part of \<^verbatim>\<open>lookup\<close> from \<^verbatim>\<open>if result_range is not None\<close> on.\<close>

definition lookup_result_range ::
  "match_result \<Rightarrow> cell list \<Rightarrow> arg option \<Rightarrow> py_error + cell" where
  "lookup_result_range match_idx result result_range =
     (case result_range of
        None \<Rightarrow> lookup_finish match_idx result
      | Some (Scalar v) \<Rightarrow> Inr (Error NA_ERROR)
      | Some (Array rr) \<Rightarrow>
          py_bind (py_get rr 0) (\<lambda>rr0.
            let rr_height = length rr; rr_width = length rr0 in
            if rr_width < rr_height then
              (if rr_width \<noteq> 1 then Inr (Error NA_ERROR)
               else py_bind (py_map (\<lambda>i. py_get i 0) rr) (lookup_finish match_idx))
            else
              (if rr_height \<noteq> 1 then Inr (Error NA_ERROR)
               else lookup_finish match_idx rr0)))"

definition lookup :: "wildcard_re \<Rightarrow> cell \<Rightarrow> arg \<Rightarrow> arg option \<Rightarrow> py_error + cell" where
  "lookup build_wildcard_re lookup_value lookup_array result_range =
     (case lookup_array of
        Scalar v \<Rightarrow> Inr (Error NA_ERROR)
      | Array rows \<Rightarrow>
          py_bind (py_get rows 0) (\<lambda>row0.
            let height = length rows; width = length row0 in
            if width \<le> height then
              py_bind (py_map (\<lambda>i. py_get i 0) rows) (\<lambda>column.
                py_bind (py_map (\<lambda>i. py_get i (- 1)) rows) (\<lambda>result.
                  lookup_result_range (xl_match build_wildcard_re lookup_value column 1)
                    result result_range))
            else
              py_bind (py_get rows (- 1)) (\<lambda>result.
                lookup_result_range (xl_match build_wildcard_re lookup_value row0 1)
                  result result_range)))"

section \<open>Shapes of arrays\<close>

text \<open>
  The spec's arrays are rectangular grids: at least one row, at least one column, all rows
  of one length. The height is \<^verbatim>\<open>len(array)\<close> and the width \<^verbatim>\<open>len(array[0])\<close>.
\<close>

definition rectangular :: "cell list list \<Rightarrow> bool" where
  "rectangular rows =
     (rows \<noteq> [] \<and> hd rows \<noteq> [] \<and> (\<forall>r \<in> set rows. length r = length (hd rows)))"

fun well_formed :: "arg \<Rightarrow> bool" where
  "well_formed (Scalar v) = True"
| "well_formed (Array rows) = rectangular rows"

fun single_row_or_column :: "arg \<Rightarrow> bool" where
  "single_row_or_column (Scalar v) = False"
| "single_row_or_column (Array rows) = (length rows = 1 \<or> (rows \<noteq> [] \<and> length (hd rows) = 1))"

section \<open>Addresses\<close>

text \<open>
  Modelled from the spec: the grid bounds \<^verbatim>\<open>MAX_COL\<close> and \<^verbatim>\<open>MAX_ROW\<close> and the address
  objects \<^verbatim>\<open>AddressCell\<close> and \<^verbatim>\<open>AddressRange\<close> of \<^verbatim>\<open>pycel.excelutil\<close>, which are not
  among the sources. A point is a sheet name (empty when there is none), a column and a
  row; a range has the column and row of a second corner as well.
\<close>

definition MAX_COL :: int where
  "MAX_COL = 16384"

definition MAX_ROW :: int where
  "MAX_ROW = 1048576"

datatype address =
    AddressCell (sheet: string) (col_idx: int) (row: int)
  | AddressRange (sheet: string) (col_idx: int) (row: int) int int

fun size_height :: "address \<Rightarrow> int" where
  "size_height (AddressCell s c r) = 1"
| "size_height (AddressRange s c r c2 r2) = r2 - r + 1"

fun size_width :: "address \<Rightarrow> int" where
  "size_width (AddressCell s c r) = 1"
| "size_width (AddressRange s c r c2 r2) = c2 - c + 1"

definition has_sheet :: "address \<Rightarrow> bool" where
  "has_sheet a = (sheet a \<noteq> [])"

fun with_sheet :: "address \<Rightarrow> string \<Rightarrow> address" where
  "with_sheet (AddressCell s c r) sh = AddressCell sh c r"
| "with_sheet (AddressRange s c r c2 r2) sh = AddressRange sh c r c2 r2"

text \<open>
  Modelled from the spec: building a range from its two corners, as
  \<^verbatim>\<open>AddressRange(f'{top_left.coordinate}:{bottom_right.coordinate}', sheet=...)\<close> does.
  The corners are written as text and read back; a row or column below 1 has no such text,
  and building the range raises \<^verbatim>\<open>ValueError\<close>.
\<close>

definition new_AddressRange :: "address \<Rightarrow> address \<Rightarrow> string \<Rightarrow> py_error + address" where
  "new_AddressRange top_left bottom_right sh =
     (if col_idx top_left < 1 \<or> row top_left < 1 \<or> col_idx bottom_right < 1 \<or> row bottom_right < 1
      then Inl ValueError
      else Inr (AddressRange sh (col_idx top_left) (row top_left)
                  (col_idx bottom_right) (row bottom_right)))"

text \<open>
  \<^verbatim>\<open>offset(reference, row_inc, col_inc, height=None, width=None)\<close>. The result is the
  invalid-reference error value, or an address, unless building the range raises.
\<close>

definition offset ::
  "address \<Rightarrow> int \<Rightarrow> int \<Rightarrow> int option \<Rightarrow> int option \<Rightarrow> py_error + (error_code + address)"
  where
  "offset reference row_inc col_inc height_arg width_arg =
     (let base_addr = reference;
          height = (case height_arg of None \<Rightarrow> size_height base_addr | Some h \<Rightarrow> h);
          width = (case width_arg of None \<Rightarrow> size_width base_addr | Some w \<Rightarrow> w);
          new_row = row base_addr + row_inc;
          end_row = new_row + height - 1;
          new_col = col_idx base_addr + col_inc;
          end_col = new_col + width - 1
      in if new_row \<le> 0 \<or> end_row > MAX_ROW \<or> new_col \<le> 0 \<or> end_col > MAX_COL
         then Inr (Inl REF_ERROR)
         else
           (let top_left = AddressCell (sheet base_addr) new_col new_row
            in if height = 1 \<and> width = 1 then Inr (Inr top_left)
               else
                 (let bottom_right = AddressCell (sheet base_addr) end_col end_row
                  in py_bind (new_AddressRange top_left bottom_right (sheet top_left))
                       (\<lambda>range. Inr (Inr range)))))"

subsection \<open>Formatting an address\<close>

text \<open>Python's \<^verbatim>\<open>str\<close> on an integer.\<close>

definition digit_char :: "nat \<Rightarrow> char" where
  "digit_char d = char_of (48 + d)"

fun str_nat :: "nat \<Rightarrow> string" where
  "str_nat n = (if n < 10 then [digit_char n] else str_nat (n div 10) @ [digit_char (n mod 10)])"

definition str :: "int \<Rightarrow> string" where
  "str i = (if i < 0 then CHR ''-'' # str_nat (nat (- i)) else str_nat (nat i))"

text \<open>
  \<^verbatim>\<open>get_column_letter\<close> of the openpyxl library: outside 1..18278 it raises
  \<^verbatim>\<open>ValueError\<close>; inside, the loop
  \<^verbatim>\<open>while col_idx > 0: col_idx, remainder = divmod(col_idx, 26); if remainder == 0:
  remainder = 26; col_idx -= 1; letters.append(chr(remainder + 64))\<close>
  collects the letters, which are then reversed.
\<close>

function column_letters_loop :: "nat \<Rightarrow> string \<Rightarrow> string" where
  "column_letters_loop col letters =
     (if col > 0 then
        (if col mod 26 = 0
         then column_letters_loop (col div 26 - 1) (letters @ [char_of (26 + 64 :: nat)])
         else column_letters_loop (col div 26) (letters @ [char_of (col mod 26 + 64)]))
      else letters)"
  by pat_completeness auto
termination
  by (relation "measure (\<lambda>(col, letters). col)") auto

definition get_column_letter :: "int \<Rightarrow> py_error + string" where
  "get_column_letter col =
     (if 1 \<le> col \<and> col \<le> 18278 then Inr (rev (column_letters_loop (nat col) []))
      else Inl ValueError)"

text \<open>
  \<^verbatim>\<open>address(row_num, column_num, abs_num=1, style=None, sheet_text='')\<close>. The style is
  \<^verbatim>\<open>None\<close> when left out; \<^verbatim>\<open>style == 0\<close> selects the R1C1 form.
\<close>

definition address :: "int \<Rightarrow> int \<Rightarrow> int \<Rightarrow> int option \<Rightarrow> string \<Rightarrow> py_error + string" where
  "address row_num column_num abs_num style sheet_text =
     (let sheet_text =
            (if sheet_text \<noteq> [] then [CHR 0x27] @ sheet_text @ [CHR 0x27, CHR ''!'']
             else sheet_text)
      in if style = Some 0 then
           (let r = (if abs_num \<in> {1, 2} then str row_num else ''['' @ str row_num @ '']'');
                c = (if abs_num \<in> {1, 3} then str column_num
                     else ''['' @ str column_num @ '']'')
            in Inr (sheet_text @ ''R'' @ r @ ''C'' @ c))
         else
           (let abs_row = (if abs_num \<in> {1, 2} then ''$'' else []);
                abs_col = (if abs_num \<in> {1, 3} then ''$'' else [])
            in py_bind (get_column_letter column_num) (\<lambda>letters.
                 Inr (sheet_text @ abs_col @ letters @ abs_row @ str row_num))))"

subsection \<open>Reading an address\<close>

text \<open>
  Modelled from the spec: \<^verbatim>\<open>AddressRange.create\<close> of \<^verbatim>\<open>pycel.excelutil\<close> on text, which is
  not among the sources. The spec says that the text is parsed as an address and that
  malformed text is an error. The model reads the A1 notation: an optional sheet name
  before \<^verbatim>\<open>!\<close>, then a cell (optional \<^verbatim>\<open>$\<close>, column letters, optional \<^verbatim>\<open>$\<close>, row
  digits, the row at least 1), then nothing or \<^verbatim>\<open>:\<close> and a second cell. The result
  \<^verbatim>\<open>None\<close> stands for the \<^verbatim>\<open>ValueError\<close> of malformed text.
\<close>

definition is_letter :: "char \<Rightarrow> bool" where
  "is_letter c = (let n = (of_char c :: nat) in (65 \<le> n \<and> n \<le> 90) \<or> (97 \<le> n \<and> n \<le> 122))"

definition is_digit :: "char \<Rightarrow> bool" where
  "is_digit c = (let n = (of_char c :: nat) in 48 \<le> n \<and> n \<le> 57)"

definition upper_char :: "char \<Rightarrow> char" where
  "upper_char c = (let n = (of_char c :: nat) in if 97 \<le> n \<and> n \<le> 122 then char_of (n - 32) else c)"

fun drop_dollar :: "string \<Rightarrow> string" where
  "drop_dollar [] = []"
| "drop_dollar (c # cs) = (if c = CHR ''$'' then cs else c # cs)"

definition column_index_from_string :: "string \<Rightarrow> int" where
  "column_index_from_string letters =
     foldl (\<lambda>v c. v * 26 + (int (of_char (upper_char c)) - 64)) 0 letters"

definition int_of_digits :: "string \<Rightarrow> int" where
  "int_of_digits digits = foldl (\<lambda>v c. v * 10 + (int (of_char c) - 48)) 0 digits"

definition parse_cell :: "string \<Rightarrow> ((int \<times> int) \<times> string) option" where
  "parse_cell s =
     (let s1 = drop_dollar s;
          letters = takeWhile is_letter s1;
          s2 = drop_dollar (dropWhile is_letter s1);
          digits = takeWhile is_digit s2;
          rest = dropWhile is_digit s2
      in if letters = [] \<or> digits = [] \<or> int_of_digits digits < 1 then None
         else Some ((column_index_from_string letters, int_of_digits digits), rest))"

definition strip_quotes :: "string \<Rightarrow> string" where
  "strip_quotes s =
     (if 2 \<le> length s \<and> hd s = CHR 0x27 \<and> last s = CHR 0x27 then butlast (tl s) else s)"

definition split_sheet :: "string \<Rightarrow> string \<times> string" where
  "split_sheet ref_text =
     (if CHR ''!'' \<in> set ref_text
      then (strip_quotes (takeWhile (\<lambda>c. c \<noteq> CHR ''!'') ref_text),
            tl (dropWhile (\<lambda>c. c \<noteq> CHR ''!'') ref_text))
      else ([], ref_text))"

definition AddressRange_create :: "string \<Rightarrow> address option" where
  "AddressRange_create ref_text =
     (case split_sheet ref_text of
        (sh, body) \<Rightarrow>
          (case parse_cell body of
             None \<Rightarrow> None
           | Some ((c, r), rest) \<Rightarrow>
               (case rest of
                  [] \<Rightarrow> Some (AddressCell sh c r)
                | x # rest2 \<Rightarrow>
                    if x = CHR '':'' then
                      (case parse_cell rest2 of
                         None \<Rightarrow> None
                       | Some ((c2, r2), rest3) \<Rightarrow>
                           if rest3 = [] then Some (AddressRange sh c r c2 r2) else None)
                    else None)))"

text \<open>
  \<^verbatim>\<open>indirect(ref_text, a1=True, sheet='')\<close>. The source does not use \<^verbatim>\<open>a1\<close>. With no
  sheet in the text, \<^verbatim>\<open>AddressRange.create(address, sheet=sheet)\<close> attaches the given one.
\<close>

definition indirect :: "string \<Rightarrow> bool \<Rightarrow> string \<Rightarrow> error_code + address" where
  "indirect ref_text a1 sheet_arg =
     (case AddressRange_create ref_text of
        None \<Rightarrow> Inl REF_ERROR
      | Some addr \<Rightarrow>
          if row addr > MAX_ROW \<or> col_idx addr > MAX_COL then Inl REF_ERROR
          else if \<not> has_sheet addr then Inr (with_sheet addr sheet_arg)
          else Inr addr)"

section \<open>Describing the scans\<close>

text \<open>
  An element takes part in the exact and descending scans when it is not an error value and
  its class is the target's.
\<close>

definition participates :: "excel_cmp \<Rightarrow> cell \<Rightarrow> bool" where
  "participates lv v = (\<not> in_ERROR_CODES v \<and> cmp_type (ExcelCmp v) = cmp_type lv)"

text \<open>The first element of \<open>vs\<close> that takes part, if there is one, is strictly below the target.\<close>

definition next_participant_less :: "excel_cmp \<Rightarrow> cell list \<Rightarrow> bool" where
  "next_participant_less lv vs =
     (case filter (participates lv) vs of [] \<Rightarrow> True | y # ys \<Rightarrow> cmp_less (ExcelCmp y) lv)"

text \<open>
  The descending scan ends with the element at offset \<open>k\<close> stored; a recursive form used in
  the proofs, shown below to say what \<open>match_descending\<close> states with indices.
\<close>

fun desc_at :: "excel_cmp \<Rightarrow> cell list \<Rightarrow> nat \<Rightarrow> bool" where
  "desc_at lv [] k = False"
| "desc_at lv (v # vs) 0 =
     (participates lv v \<and> \<not> cmp_less (ExcelCmp v) lv \<and>
      (cmp_equal (ExcelCmp v) lv \<or> next_participant_less lv vs))"
| "desc_at lv (v # vs) (Suc k) =
     ((participates lv v \<longrightarrow> \<not> cmp_less (ExcelCmp v) lv \<and> \<not> cmp_equal (ExcelCmp v) lv) \<and>
      desc_at lv vs k)"

section \<open>Sorted sequences\<close>





section \<open>Properties of the match engine\<close>

declare bisect_right.simps [simp del] skip_lo.simps [simp del] skip_hi.simps [simp del]
  walk_back.simps [simp del]

lemma skip_lo_le: "lo \<le> length a \<Longrightarrow> skip_lo a lo \<le> length a"
  by (induction a lo rule: skip_lo.induct) (subst skip_lo.simps, auto)

lemma skip_lo_ge: "lo \<le> skip_lo a lo"
  by (induction a lo rule: skip_lo.induct) (subst skip_lo.simps, auto)

lemma skip_hi_le: "skip_hi a hi \<le> hi"
  by (induction a hi rule: skip_hi.induct) (subst skip_hi.simps, auto)

lemma bisect_right_ge: "lo \<le> bisect_right a x lo hi"
  by (induction a x lo hi rule: bisect_right.induct)
     (subst bisect_right.simps, auto simp: Let_def)

lemma bisect_right_le: "bisect_right a x lo hi \<le> max lo hi"
  by (induction a x lo hi rule: bisect_right.induct)
     (subst bisect_right.simps, auto simp: Let_def)

lemma walk_back_le: "walk_back lv a r \<le> r"
  by (induction lv a r rule: walk_back.induct) (subst walk_back.simps, auto)

lemma walk_back_stop:
  "walk_back lv a r = 0 \<or> cmp_type lv = cmp_type (ExcelCmp (a ! (walk_back lv a r - 1)))"
  by (induction lv a r rule: walk_back.induct) (subst (1 2) walk_back.simps, auto)

lemma xl_match_asc:
  "xl_match re t S 1 =
     (if asc_candidate t S = 0 \<or> S ! (asc_candidate t S - 1) = Empty then Inl NA_ERROR
      else Inr (asc_candidate t S))"
  by (simp add: xl_match_def Let_def asc_candidate_def)

lemma asc_candidate_le: "asc_candidate t S \<le> length S"
proof -
  let ?b = "bisect_right S (ExcelCmp t) (skip_lo S 0) (skip_hi S (length S))"
  have "skip_lo S 0 \<le> length S" by (rule skip_lo_le) simp
  moreover have "skip_hi S (length S) \<le> length S" by (rule skip_hi_le)
  moreover have "?b \<le> max (skip_lo S 0) (skip_hi S (length S))" by (rule bisect_right_le)
  ultimately have "?b \<le> length S" by simp
  moreover have "asc_candidate t S \<le> ?b" unfolding asc_candidate_def by (rule walk_back_le)
  ultimately show ?thesis by simp
qed

lemma asc_candidate_class:
  "asc_candidate t S = 0 \<or>
   cmp_type (ExcelCmp t) = cmp_type (ExcelCmp (S ! (asc_candidate t S - 1)))"
  unfolding asc_candidate_def by (rule walk_back_stop)

lemma xl_match_asc_Inr:
  assumes "xl_match re t S 1 = Inr p"
  shows "1 \<le> p" and "p \<le> length S" and "S ! (p - 1) \<noteq> Empty"
    and "cmp_type (ExcelCmp (S ! (p - 1))) = cmp_type (ExcelCmp t)"
proof -
  from assms have p: "p = asc_candidate t S" and nz: "asc_candidate t S \<noteq> 0"
    and ne: "S ! (asc_candidate t S - 1) \<noteq> Empty"
    by (auto simp: xl_match_asc split: if_splits)
  show "1 \<le> p" using p nz by simp
  show "p \<le> length S" using p asc_candidate_le by simp
  show "S ! (p - 1) \<noteq> Empty" using p ne by simp
  show "cmp_type (ExcelCmp (S ! (p - 1))) = cmp_type (ExcelCmp t)"
    using p nz asc_candidate_class [of t S] by auto
qed

subsection \<open>The descending scan\<close>

lemma xl_match_desc:
  "xl_match re t S (- 1) = scan (compare_desc (ExcelCmp t)) (ExcelCmp t) 1 S (Inl NA_ERROR)"
  by (simp add: xl_match_def Let_def)

lemma next_participant_less_Cons:
  "next_participant_less lv (v # vs) =
     (if participates lv v then cmp_less (ExcelCmp v) lv else next_participant_less lv vs)"
  by (simp add: next_participant_less_def)

lemma next_participant_less_Nil: "next_participant_less lv []"
  by (simp add: next_participant_less_def)

lemma scan_desc_Cons:
  "scan (compare_desc lv) lv i (v # vs) res =
     (if participates lv v then
        (if cmp_less (ExcelCmp v) lv then res
         else if cmp_equal (ExcelCmp v) lv then Inr i
         else scan (compare_desc lv) lv (i + 1) vs (Inr i))
      else scan (compare_desc lv) lv (i + 1) vs res)"
  by (simp add: compare_desc_def participates_def)

lemma scan_desc_iff:
  "scan (compare_desc lv) lv i S res = Inr p \<longleftrightarrow>
     (res = Inr p \<and> next_participant_less lv S) \<or> (i \<le> p \<and> desc_at lv S (p - i))"
proof (induction S arbitrary: i res)
  case Nil
  show ?case by (simp add: next_participant_less_Nil)
next
  case (Cons v vs)
  have split: "(i \<le> p \<and> desc_at lv (v # vs) (p - i)) \<longleftrightarrow>
      (p = i \<and> desc_at lv (v # vs) 0) \<or> (i + 1 \<le> p \<and> desc_at lv (v # vs) (Suc (p - (i + 1))))"
  proof (cases "p = i")
    case True
    then show ?thesis by simp
  next
    case False
    show ?thesis
    proof (cases "i < p")
      case True
      then have "p - i = Suc (p - (i + 1))" by simp
      with True False show ?thesis by simp
    next
      case False
      with \<open>p \<noteq> i\<close> show ?thesis by simp
    qed
  qed
  show ?case
    unfolding split scan_desc_Cons next_participant_less_Cons
    using Cons.IH [of "i + 1" res] Cons.IH [of "i + 1" "Inr i"]
    by (cases "participates lv v"; cases "cmp_less (ExcelCmp v) lv";
        cases "cmp_equal (ExcelCmp v) lv") auto
qed

lemma desc_at_iff:
  "desc_at lv S k \<longleftrightarrow>
     k < length S \<and> participates lv (S ! k) \<and> \<not> cmp_less (ExcelCmp (S ! k)) lv \<and>
     (\<forall>y \<in> set (take k S).
        participates lv y \<longrightarrow> \<not> cmp_less (ExcelCmp y) lv \<and> \<not> cmp_equal (ExcelCmp y) lv) \<and>
     (cmp_equal (ExcelCmp (S ! k)) lv \<or> next_participant_less lv (drop (Suc k) S))"
proof (induction S arbitrary: k)
  case Nil
  show ?case by simp
next
  case (Cons v vs)
  show ?case
  proof (cases k)
    case 0
    then show ?thesis by simp
  next
    case (Suc j)
    then show ?thesis using Cons.IH [of j] by auto
  qed
qed

lemma scan_desc_Inl:
  "scan (compare_desc lv) lv i S res = Inl e \<Longrightarrow> res = Inl e"
proof (induction S arbitrary: i res)
  case Nil
  then show ?case by simp
next
  case (Cons v vs)
  from Cons.prems Cons.IH [of "i + 1" res] Cons.IH [of "i + 1" "Inr i"]
  show ?case unfolding scan_desc_Cons by (auto split: if_splits)
qed

text \<open>
  Claim C2, as stated, fails: in 5, 3, 3, 1 with target 3 the first element strictly below
  the target is the fourth, so the claim gives position 3, and \<^verbatim>\<open>_match\<close> returns 2, having
  stopped at the first element equal to the target.
\<close>

theorem match_descending_counterexample:
  "\<not> cmp_less (ExcelCmp (Number 5)) (ExcelCmp (Number 3)) \<and>
   \<not> cmp_less (ExcelCmp (Number 3)) (ExcelCmp (Number 3)) \<and>
   cmp_less (ExcelCmp (Number 1)) (ExcelCmp (Number 3)) \<and>
   xl_match (\<lambda>s. None) (Number 3) [Number 5, Number 3, Number 3, Number 1] (- 1) = Inr 2 \<and>
   xl_match (\<lambda>s. None) (Number 3) [Number 5, Number 3, Number 3, Number 1] (- 1) \<noteq> Inr 3"
proof -
  have "xl_match (\<lambda>s. None) (Number 3) [Number 5, Number 3, Number 3, Number 1] (- 1) = Inr 2"
    by code_simp
  then show ?thesis by (simp add: cmp_less_def)
qed

text \<open>
  Claim C2, amended. In descending mode only the elements of the target's class that are not
  error values take part; the others are passed over. The scan stops at the first such
  element that is strictly below the target or equal to it. The result is position \<open>p\<close>
  exactly when the element at \<open>p\<close> takes part and is not below the target, every element
  before it that takes part is strictly above the target, and the element at \<open>p\<close> equals
  the target or the next element that takes part after it, if any, is strictly below the
  target. In every other case the result is the not-found error.
\<close>

theorem match_descending:
  "(xl_match re t S (- 1) = Inr p \<longleftrightarrow>
      1 \<le> p \<and> p \<le> length S \<and>
      participates (ExcelCmp t) (S ! (p - 1)) \<and>
      \<not> cmp_less (ExcelCmp (S ! (p - 1))) (ExcelCmp t) \<and>
      (\<forall>y \<in> set (take (p - 1) S).
         participates (ExcelCmp t) y \<longrightarrow>
           \<not> cmp_less (ExcelCmp y) (ExcelCmp t) \<and> \<not> cmp_equal (ExcelCmp y) (ExcelCmp t)) \<and>
      (cmp_equal (ExcelCmp (S ! (p - 1))) (ExcelCmp t) \<or>
       next_participant_less (ExcelCmp t) (drop p S))) \<and>
   (xl_match re t S (- 1) = Inl e \<longrightarrow> e = NA_ERROR)"
proof
  have "xl_match re t S (- 1) = Inr p \<longleftrightarrow> 1 \<le> p \<and> desc_at (ExcelCmp t) S (p - 1)"
    unfolding xl_match_desc scan_desc_iff by simp
  also have "\<dots> \<longleftrightarrow> 1 \<le> p \<and> p \<le> length S \<and>
      participates (ExcelCmp t) (S ! (p - 1)) \<and>
      \<not> cmp_less (ExcelCmp (S ! (p - 1))) (ExcelCmp t) \<and>
      (\<forall>y \<in> set (take (p - 1) S).
         participates (ExcelCmp t) y \<longrightarrow>
           \<not> cmp_less (ExcelCmp y) (ExcelCmp t) \<and> \<not> cmp_equal (ExcelCmp y) (ExcelCmp t)) \<and>
      (cmp_equal (ExcelCmp (S ! (p - 1))) (ExcelCmp t) \<or>
       next_participant_less (ExcelCmp t) (drop p S))"
    unfolding desc_at_iff by (cases p) auto
  finally show "xl_match re t S (- 1) = Inr p \<longleftrightarrow>
      1 \<le> p \<and> p \<le> length S \<and>
      participates (ExcelCmp t) (S ! (p - 1)) \<and>
      \<not> cmp_less (ExcelCmp (S ! (p - 1))) (ExcelCmp t) \<and>
      (\<forall>y \<in> set (take (p - 1) S).
         participates (ExcelCmp t) y \<longrightarrow>
           \<not> cmp_less (ExcelCmp y) (ExcelCmp t) \<and> \<not> cmp_equal (ExcelCmp y) (ExcelCmp t)) \<and>
      (cmp_equal (ExcelCmp (S ! (p - 1))) (ExcelCmp t) \<or>
       next_participant_less (ExcelCmp t) (drop p S))" .
next
  show "xl_match re t S (- 1) = Inl e \<longrightarrow> e = NA_ERROR"
    unfolding xl_match_desc using scan_desc_Inl by fastforce
qed

theorem match_descending_witness:
  "xl_match (\<lambda>s. None) (Number 3)
     [Number 7, Text ''x'', Number 5, Error DIV0, Number 2, Number 4] (- 1) = Inr 3 \<and>
   participates (ExcelCmp (Number 3))
     ([Number 7, Text ''x'', Number 5, Error DIV0, Number 2, Number 4] ! (3 - 1)) \<and>
   next_participant_less (ExcelCmp (Number 3))
     (drop 3 [Number 7, Text ''x'', Number 5, Error DIV0, Number 2, Number 4]) \<and>
   xl_match (\<lambda>s. None) (Number 9) [Number 7, Number 5] (- 1) = Inl NA_ERROR"
proof -
  let ?S = "[Number 7, Text ''x'', Number 5, Error DIV0, Number 2, Number 4]"
  have h: "xl_match (\<lambda>s. None) (Number 3) ?S (- 1) = Inr 3" by code_simp
  have n: "xl_match (\<lambda>s. None) (Number 9) [Number 7, Number 5] (- 1) = Inl NA_ERROR"
    by code_simp
  have ne: "\<not> cmp_equal (ExcelCmp (?S ! (3 - 1))) (ExcelCmp (Number 3))"
    by (simp add: cmp_equal_def)
  from h match_descending [of "\<lambda>s. None" "Number 3" ?S 3]
  have "participates (ExcelCmp (Number 3)) (?S ! (3 - 1)) \<and>
      (cmp_equal (ExcelCmp (?S ! (3 - 1))) (ExcelCmp (Number 3)) \<or>
       next_participant_less (ExcelCmp (Number 3)) (drop 3 ?S))"
    by blast
  with ne h n show ?thesis by blast
qed

subsection \<open>The comparator is a linear order inside a class\<close>

lemma err_rank_inj: "err_rank a = err_rank b \<Longrightarrow> a = b"
  by (cases a; cases b) simp_all

lemma key_less_irrefl: "\<not> key_less k k"
  by (cases k) simp_all


lemma cmp_less_irrefl: "\<not> cmp_less a a"
  by (simp add: cmp_less_def key_less_irrefl)



lemma cmp_le_class: "cmp_le a b \<Longrightarrow> cmp_type a = cmp_type b"
  by (auto simp: cmp_le_def cmp_less_def cmp_equal_def)







subsection \<open>The window of the ascending search\<close>

lemma skip_lo_takeWhile:
  "k \<le> length S \<Longrightarrow> skip_lo S k = k + length (takeWhile (\<lambda>v. v = Empty) (drop k S))"
proof (induction S k rule: skip_lo.induct)
  case (1 a lo)
  show ?case
  proof (cases "lo < length a \<and> a ! lo = Empty")
    case True
    then have d: "drop lo a = Empty # drop (Suc lo) a"
      by (metis Cons_nth_drop_Suc)
    from True have "skip_lo a lo = skip_lo a (lo + 1)"
      by (subst skip_lo.simps) simp
    also from True "1.IH" have "\<dots> = lo + 1 + length (takeWhile (\<lambda>v. v = Empty) (drop (lo + 1) a))"
      by simp
    finally show ?thesis by (simp add: d)
  next
    case False
    then have s: "skip_lo a lo = lo" by (subst skip_lo.simps) (simp only: if_False)
    show ?thesis
    proof (cases "lo < length a")
      case True
      with False have "a ! lo \<noteq> Empty" by simp
      moreover from True have "drop lo a = a ! lo # drop (Suc lo) a"
        by (simp add: Cons_nth_drop_Suc)
      ultimately show ?thesis using s by simp
    next
      case False
      with "1.prems" s show ?thesis by simp
    qed
  qed
qed




subsection \<open>The binary search on a sorted window\<close>

lemma bisect_right_sorted:
  assumes "hi \<le> length S"
    and "\<And>i j. lo \<le> i \<Longrightarrow> i \<le> j \<Longrightarrow> j < hi \<Longrightarrow>
           cmp_less x (ExcelCmp (S ! i)) \<Longrightarrow> cmp_less x (ExcelCmp (S ! j))"
    and "lo \<le> hi"
  shows "lo \<le> bisect_right S x lo hi \<and> bisect_right S x lo hi \<le> hi \<and>
         (\<forall>i. lo \<le> i \<and> i < bisect_right S x lo hi \<longrightarrow> \<not> cmp_less x (ExcelCmp (S ! i))) \<and>
         (\<forall>i. bisect_right S x lo hi \<le> i \<and> i < hi \<longrightarrow> cmp_less x (ExcelCmp (S ! i)))"
  using assms
proof (induction S x lo hi rule: bisect_right.induct)
  case (1 a x lo hi)
  show ?case
  proof (cases "lo < hi")
    case False
    then have "bisect_right a x lo hi = lo"
      by (subst bisect_right.simps) simp
    moreover from False "1.prems"(3) have "lo = hi" by simp
    ultimately show ?thesis by auto
  next
    case True
    define mid where "mid = (lo + hi) div 2"
    from True have m: "lo \<le> mid" "mid < hi" by (simp_all add: mid_def)
    show ?thesis
    proof (cases "cmp_less x (ExcelCmp (a ! mid))")
      case lt: True
      with True have r: "bisect_right a x lo hi = bisect_right a x lo mid"
        by (subst bisect_right.simps) (simp add: mid_def Let_def)
      have "lo \<le> bisect_right a x lo mid \<and> bisect_right a x lo mid \<le> mid \<and>
         (\<forall>i. lo \<le> i \<and> i < bisect_right a x lo mid \<longrightarrow> \<not> cmp_less x (ExcelCmp (a ! i))) \<and>
         (\<forall>i. bisect_right a x lo mid \<le> i \<and> i < mid \<longrightarrow> cmp_less x (ExcelCmp (a ! i)))"
      proof (rule "1.IH"(1) [OF True mid_def lt])
        show "mid \<le> length a" using m "1.prems"(1) by simp
        show "lo \<le> mid" by (rule m)
        fix i j assume "lo \<le> i" "i \<le> j" "j < mid" "cmp_less x (ExcelCmp (a ! i))"
        with m show "cmp_less x (ExcelCmp (a ! j))" using "1.prems"(2) [of i j] by simp
      qed
      moreover have "cmp_less x (ExcelCmp (a ! i))" if "mid \<le> i" "i < hi" for i
        using "1.prems"(2) [of mid i] m that lt by simp
      ultimately show ?thesis unfolding r using m
        by (metis le_less_linear less_imp_le_nat order_trans)
    next
      case ge: False
      with True have r: "bisect_right a x lo hi = bisect_right a x (mid + 1) hi"
        by (subst bisect_right.simps) (simp add: mid_def Let_def)
      have "mid + 1 \<le> bisect_right a x (mid + 1) hi \<and> bisect_right a x (mid + 1) hi \<le> hi \<and>
         (\<forall>i. mid + 1 \<le> i \<and> i < bisect_right a x (mid + 1) hi \<longrightarrow>
              \<not> cmp_less x (ExcelCmp (a ! i))) \<and>
         (\<forall>i. bisect_right a x (mid + 1) hi \<le> i \<and> i < hi \<longrightarrow> cmp_less x (ExcelCmp (a ! i)))"
      proof (rule "1.IH"(2) [OF True mid_def ge])
        show "hi \<le> length a" by (rule "1.prems"(1))
        show "mid + 1 \<le> hi" using m by simp
        fix i j assume "mid + 1 \<le> i" "i \<le> j" "j < hi" "cmp_less x (ExcelCmp (a ! i))"
        with m show "cmp_less x (ExcelCmp (a ! j))" using "1.prems"(2) [of i j] by simp
      qed
      moreover have "\<not> cmp_less x (ExcelCmp (a ! i))" if "lo \<le> i" "i \<le> mid" for i
        using "1.prems"(2) [of i mid] m that ge by auto
      ultimately show ?thesis unfolding r using m
        by (metis Suc_eq_plus1 Suc_leI le_less_linear less_imp_le_nat order_trans not_less_eq_eq)
    qed
  qed
qed



subsection \<open>The ascending search on a sorted sequence\<close>



subsection \<open>Absence markers in the ascending search\<close>

lemma skip_hi_last:
  assumes "S \<noteq> []" and "last S \<noteq> Empty"
  shows "skip_hi S (length S) = length S"
proof -
  from assms have "S ! (length S - 1) \<noteq> Empty" by (simp add: last_conv_nth)
  then show ?thesis by (subst skip_hi.simps) simp
qed

lemma skip_lo_first_value:
  assumes "i < length S" and "S ! i \<noteq> Empty"
  shows "skip_lo S 0 \<le> i"
proof (rule ccontr)
  let ?P = "\<lambda>v. v = Empty"
  assume "\<not> skip_lo S 0 \<le> i"
  then have i: "i < length (takeWhile ?P S)"
    using skip_lo_takeWhile [of 0 S] by simp
  then have "takeWhile ?P S ! i \<in> set (takeWhile ?P S)" by (rule nth_mem)
  then have "?P (takeWhile ?P S ! i)" by (rule set_takeWhileD [THEN conjunct2])
  moreover from i have "takeWhile ?P S ! i = S ! i" by (rule takeWhile_nth)
  ultimately show False using assms(2) by simp
qed

lemma xl_match_gap:
  assumes cls: "cmp_type (ExcelCmp t) = Numeric"
    and pre: "\<forall>x \<in> set pre. \<not> cmp_less (ExcelCmp t) (ExcelCmp x)"
    and gap: "\<not> cmp_less (ExcelCmp t) (ExcelCmp Empty)"
    and post: "post \<noteq> []" "\<forall>y \<in> set post. cmp_less (ExcelCmp t) (ExcelCmp y)"
  shows "xl_match re t (pre @ Empty # post) 1 = Inl NA_ERROR"
proof -
  define S where "S = pre @ Empty # post"
  define lv where "lv = ExcelCmp t"
  define n where "n = length pre"
  define r where "r = bisect_right S lv (skip_lo S 0) (skip_hi S (length S))"
  have len: "length S = n + 1 + length post" by (simp add: S_def n_def)
  have low: "\<not> cmp_less lv (ExcelCmp (S ! i))" if "i \<le> n" for i
  proof (cases "i < n")
    case True
    then have "S ! i \<in> set pre" by (simp add: S_def n_def nth_append)
    with pre show ?thesis by (simp add: lv_def)
  next
    case False
    with that have "i = n" by simp
    then have "S ! i = Empty" by (simp add: S_def n_def)
    with gap show ?thesis by (simp add: lv_def)
  qed
  have high: "cmp_less lv (ExcelCmp (S ! i))" if "n < i" "i < length S" for i
  proof -
    from that have "S ! i = post ! (i - n - 1)"
      by (simp add: S_def n_def nth_append nth_Cons')
    moreover from that len have "i - n - 1 < length post" by simp
    ultimately have "S ! i \<in> set post" by simp
    with post(2) show ?thesis by (simp add: lv_def)
  qed
  have "last S = last post" using post(1) by (simp add: S_def)
  moreover have "last post \<in> set post" using post(1) by simp
  ultimately have "cmp_less lv (ExcelCmp (last S))" using post(2) by (simp add: lv_def)
  with gap have "last S \<noteq> Empty" by (auto simp: lv_def)
  moreover have "S \<noteq> []" by (simp add: S_def)
  ultimately have hi: "skip_hi S (length S) = length S" by (intro skip_hi_last)
  have "S ! (n + 1) \<noteq> Empty"
    using high [of "n + 1"] gap post(1) len by (auto simp: lv_def)
  then have lo: "skip_lo S 0 \<le> n + 1"
    using post(1) len by (intro skip_lo_first_value) simp_all
  have b: "skip_lo S 0 \<le> r \<and> r \<le> length S \<and>
      (\<forall>i. skip_lo S 0 \<le> i \<and> i < r \<longrightarrow> \<not> cmp_less lv (ExcelCmp (S ! i))) \<and>
      (\<forall>i. r \<le> i \<and> i < length S \<longrightarrow> cmp_less lv (ExcelCmp (S ! i)))"
    unfolding r_def hi
  proof (rule bisect_right_sorted)
    show "length S \<le> length S" by simp
    show "skip_lo S 0 \<le> length S" using lo len by simp
    fix i j assume "skip_lo S 0 \<le> i" "i \<le> j" "j < length S" "cmp_less lv (ExcelCmp (S ! i))"
    then show "cmp_less lv (ExcelCmp (S ! j))"
      using low [of i] high [of j] by (cases "i \<le> n") simp_all
  qed
  have "r \<le> n + 1"
  proof (rule ccontr)
    assume "\<not> r \<le> n + 1"
    with lo b have "\<not> cmp_less lv (ExcelCmp (S ! (n + 1)))" by simp
    moreover have "cmp_less lv (ExcelCmp (S ! (n + 1)))" using post(1) len by (intro high) simp_all
    ultimately show False by simp
  qed
  moreover have "n + 1 \<le> r"
  proof (rule ccontr)
    assume "\<not> n + 1 \<le> r"
    then have "r \<le> n" by simp
    moreover from this len b have "cmp_less lv (ExcelCmp (S ! r))" by simp
    ultimately show False using low [of r] by simp
  qed
  ultimately have r: "r = n + 1" by simp
  have e: "S ! (r - 1) = Empty" by (simp add: r S_def n_def)
  have "walk_back lv S r = r"
    using cls e by (subst walk_back.simps) (simp add: lv_def)
  then have "asc_candidate t S = r"
    by (simp add: asc_candidate_def r_def lv_def)
  with e show ?thesis by (simp add: xl_match_asc S_def)
qed

text \<open>
  Claim C10. In ascending mode \<^verbatim>\<open>_match\<close> never returns the position of an absence marker.
  A returned position is inside the sequence, holds a value other than \<^verbatim>\<open>None\<close>, and that
  value is of the target's class. Whenever the position left by the binary search and the
  walk back over other classes is 0, or holds \<^verbatim>\<open>None\<close>, the result is the not-found
  error. In particular an interior gap is not returned: for a target of the class numbers
  have, if a \<^verbatim>\<open>None\<close> stands where the elements not above the target end and the elements
  above it begin, the result is the not-found error.
\<close>

theorem match_ascending_never_absent:
  "(xl_match re t S 1 = Inr p \<longrightarrow>
      1 \<le> p \<and> p \<le> length S \<and> S ! (p - 1) \<noteq> Empty \<and>
      cmp_type (ExcelCmp (S ! (p - 1))) = cmp_type (ExcelCmp t)) \<and>
   (let r = walk_back (ExcelCmp t) S
              (bisect_right S (ExcelCmp t) (skip_lo S 0) (skip_hi S (length S)))
    in (r = 0 \<or> S ! (r - 1) = Empty) \<longrightarrow> xl_match re t S 1 = Inl NA_ERROR) \<and>
   (cmp_type (ExcelCmp t) = Numeric \<and>
    (\<forall>x \<in> set pre. \<not> cmp_less (ExcelCmp t) (ExcelCmp x)) \<and>
    \<not> cmp_less (ExcelCmp t) (ExcelCmp Empty) \<and>
    post \<noteq> [] \<and> (\<forall>y \<in> set post. cmp_less (ExcelCmp t) (ExcelCmp y))
    \<longrightarrow> xl_match re t (pre @ Empty # post) 1 = Inl NA_ERROR)"
proof -
  have a: "xl_match re t S 1 = Inr p \<longrightarrow>
      1 \<le> p \<and> p \<le> length S \<and> S ! (p - 1) \<noteq> Empty \<and>
      cmp_type (ExcelCmp (S ! (p - 1))) = cmp_type (ExcelCmp t)"
    using xl_match_asc_Inr [of re t S p] by blast
  have b: "let r = walk_back (ExcelCmp t) S
              (bisect_right S (ExcelCmp t) (skip_lo S 0) (skip_hi S (length S)))
    in (r = 0 \<or> S ! (r - 1) = Empty) \<longrightarrow> xl_match re t S 1 = Inl NA_ERROR"
    unfolding Let_def asc_candidate_def [symmetric] by (simp add: xl_match_asc)
  have c: "cmp_type (ExcelCmp t) = Numeric \<and>
    (\<forall>x \<in> set pre. \<not> cmp_less (ExcelCmp t) (ExcelCmp x)) \<and>
    \<not> cmp_less (ExcelCmp t) (ExcelCmp Empty) \<and>
    post \<noteq> [] \<and> (\<forall>y \<in> set post. cmp_less (ExcelCmp t) (ExcelCmp y))
    \<longrightarrow> xl_match re t (pre @ Empty # post) 1 = Inl NA_ERROR"
    using xl_match_gap [of t pre post re] by blast
  from a b c show ?thesis by (intro conjI)
qed

theorem match_ascending_never_absent_witness:
  "xl_match (\<lambda>s. None) (Number 2) [Number 1, Number 2] 1 = Inr 2 \<and>
   [Number 1, Number 2] ! (2 - 1) \<noteq> Empty \<and>
   walk_back (ExcelCmp (Number 2)) [Number 1, Empty, Number 3]
     (bisect_right [Number 1, Empty, Number 3] (ExcelCmp (Number 2))
        (skip_lo [Number 1, Empty, Number 3] 0)
        (skip_hi [Number 1, Empty, Number 3] (length [Number 1, Empty, Number 3]))) = 2 \<and>
   [Number 1, Empty, Number 3] ! (2 - 1) = Empty \<and>
   cmp_type (ExcelCmp (Number 2)) = Numeric \<and>
   \<not> cmp_less (ExcelCmp (Number 2)) (ExcelCmp (Number 1)) \<and>
   \<not> cmp_less (ExcelCmp (Number 2)) (ExcelCmp Empty) \<and>
   cmp_less (ExcelCmp (Number 2)) (ExcelCmp (Number 3)) \<and>
   xl_match (\<lambda>s. None) (Number 2) ([Number 1] @ Empty # [Number 3]) 1 = Inl NA_ERROR"
proof -
  let ?S = "[Number 1, Empty, Number 3]"
  have h1: "xl_match (\<lambda>s. None) (Number 2) [Number 1, Number 2] 1 = Inr 2" by code_simp
  have h2: "walk_back (ExcelCmp (Number 2)) ?S
     (bisect_right ?S (ExcelCmp (Number 2)) (skip_lo ?S 0) (skip_hi ?S (length ?S))) = 2"
    by code_simp
  have h3: "?S ! (2 - 1) = Empty" by simp
  have h4: "cmp_type (ExcelCmp (Number 2)) = Numeric"
    "\<forall>x \<in> set [Number 1]. \<not> cmp_less (ExcelCmp (Number 2)) (ExcelCmp x)"
    "\<not> cmp_less (ExcelCmp (Number 2)) (ExcelCmp Empty)"
    "\<forall>y \<in> set [Number 3]. cmp_less (ExcelCmp (Number 2)) (ExcelCmp y)"
    by (simp_all add: cmp_less_def)
  have c1: "[Number 1, Number 2] ! (2 - 1) \<noteq> Empty"
    using match_ascending_never_absent [of "\<lambda>s. None" "Number 2" "[Number 1, Number 2]" 2] h1
    by blast
  have c3: "xl_match (\<lambda>s. None) (Number 2) ([Number 1] @ Empty # [Number 3]) 1 = Inl NA_ERROR"
    using match_ascending_never_absent [of "\<lambda>s. None" "Number 2" _ _ "[Number 1]" "[Number 3]"] h4
    by blast
  from h4 have h5: "\<not> cmp_less (ExcelCmp (Number 2)) (ExcelCmp (Number 1))"
    "cmp_less (ExcelCmp (Number 2)) (ExcelCmp (Number 3))" by simp_all
  from h1 c1 h2 h3 h4(1,3) h5 c3 show ?thesis by blast
qed

section \<open>Properties of the lookup functions\<close>

lemma py_get_0: "xs \<noteq> [] \<Longrightarrow> py_get xs 0 = Inr (hd xs)"
  by (cases xs) (simp_all add: py_get_def)

lemma py_get_last: "xs \<noteq> [] \<Longrightarrow> py_get xs (- 1) = Inr (last xs)"
  by (cases xs rule: rev_cases) (simp_all add: py_get_def nth_append)

lemma py_get_idx: "1 \<le> p \<Longrightarrow> p \<le> length xs \<Longrightarrow> py_get xs (int p - 1) = Inr (xs ! (p - 1))"
  by (auto simp: py_get_def nat_diff_distrib')

lemma py_map_total: "(\<And>x. x \<in> set xs \<Longrightarrow> f x = Inr (g x)) \<Longrightarrow> py_map f xs = Inr (map g xs)"
  by (induction xs) simp_all

text \<open>
  Claim C3. For an array \<^verbatim>\<open>table_array\<close> with a first row, \<^verbatim>\<open>vlookup\<close> in exact mode with a
  column index above the length of that row returns the invalid-reference error, whatever
  the target (and the wildcard compiler); a column index below 1 returns the invalid-value
  error.
\<close>

theorem vlookup_column_bounds:
  "(rows \<noteq> [] \<and> int (length (hd rows)) < k \<longrightarrow>
      vlookup re t (Array rows) k False = Inr (Error REF_ERROR)) \<and>
   (k < 1 \<longrightarrow> vlookup re t (Array rows) k rl = Inr (Error VALUE_ERROR))"
  by (auto simp: vlookup_def py_get_0)

theorem vlookup_column_bounds_witness:
  "[[Number 1, Text ''a''], [Number 5, Text ''b'']] \<noteq> [] \<and>
   int (length (hd [[Number 1, Text ''a''], [Number 5, Text ''b'']])) < 3 \<and>
   vlookup (\<lambda>s. None) (Number 7) (Array [[Number 1, Text ''a''], [Number 5, Text ''b'']]) 3 False
     = Inr (Error REF_ERROR) \<and>
   (0 :: int) < 1 \<and>
   vlookup (\<lambda>s. None) (Number 7) (Array [[Number 1, Text ''a''], [Number 5, Text ''b'']]) 0 True
     = Inr (Error VALUE_ERROR)"
  using vlookup_column_bounds [of "[[Number 1, Text ''a''], [Number 5, Text ''b'']]" 3
          "\<lambda>s. None" "Number 7" True]
        vlookup_column_bounds [of "[[Number 1, Text ''a''], [Number 5, Text ''b'']]" 0
          "\<lambda>s. None" "Number 7" True]
  by simp

text \<open>
  Claim C9, as stated, fails: for a table that is not an array \<^verbatim>\<open>vlookup\<close> returns the
  value-unavailable error, not the invalid-value error.
\<close>

theorem lookup_table_not_array_counterexample:
  "vlookup (\<lambda>s. None) (Number 1) (Scalar (Number 5)) 1 False = Inr (Error NA_ERROR) \<and>
   vlookup (\<lambda>s. None) (Number 1) (Scalar (Number 5)) 1 False \<noteq> Inr (Error VALUE_ERROR)"
  by (simp add: vlookup_def)

text \<open>
  Claim C9, amended. When \<^verbatim>\<open>vlookup\<close> or \<^verbatim>\<open>hlookup\<close> is called with a table that is not
  an array, it returns the value-unavailable error (\<^verbatim>\<open>#N/A\<close>), whatever the other
  arguments.
\<close>

theorem lookup_table_not_array:
  "vlookup re t (Scalar v) k rl = Inr (Error NA_ERROR) \<and>
   hlookup re t (Scalar v) k rl = Inr (Error NA_ERROR)"
  by (simp add: vlookup_def hlookup_def)

lemma rectangular_first_column:
  assumes "rectangular rows"
  shows "py_map (\<lambda>i. py_get i 0) rows = Inr (map hd rows)"
proof (rule py_map_total)
  fix r assume "r \<in> set rows"
  with assms have "r \<noteq> []" by (auto simp: rectangular_def)
  then show "py_get r 0 = Inr (hd r)" by (rule py_get_0)
qed

lemma rectangular_last_column:
  assumes "rectangular rows"
  shows "py_map (\<lambda>i. py_get i (- 1)) rows = Inr (map last rows)"
proof (rule py_map_total)
  fix r assume "r \<in> set rows"
  with assms have "r \<noteq> []" by (auto simp: rectangular_def)
  then show "py_get r (- 1) = Inr (last r)" by (rule py_get_last)
qed

lemma lookup_finish_asc:
  assumes "length S \<le> length result"
  shows "lookup_finish (xl_match re t S 1) result =
           (case xl_match re t S 1 of Inl e \<Rightarrow> Inr (Error e) | Inr p \<Rightarrow> Inr (result ! (p - 1)))"
proof (cases "xl_match re t S 1")
  case (Inl e)
  then show ?thesis by (simp add: lookup_finish_def)
next
  case (Inr p)
  then have "1 \<le> p" "p \<le> length S" by (rule xl_match_asc_Inr)+
  with assms have "py_get result (int p - 1) = Inr (result ! (p - 1))"
    by (intro py_get_idx) simp_all
  with Inr show ?thesis by (simp add: lookup_finish_def)
qed

lemma rectangular_nonempty:
  assumes "rectangular rows"
  shows "rows \<noteq> []" and "hd rows \<noteq> []" and "length (last rows) = length (hd rows)"
proof -
  from assms show a: "rows \<noteq> []" and "hd rows \<noteq> []"
    unfolding rectangular_def by blast+
  from a have "last rows \<in> set rows" by simp
  with assms show "length (last rows) = length (hd rows)"
    unfolding rectangular_def by blast
qed

lemma lookup_by_columns:
  assumes "rectangular rows" and "length (hd rows) \<le> length rows"
  shows "lookup re t (Array rows) rr =
           lookup_result_range (xl_match re t (map hd rows) 1) (map last rows) rr"
  using assms(2) rectangular_nonempty(1) [OF assms(1)]
  by (simp add: lookup_def py_get_0 rectangular_first_column [OF assms(1)]
        rectangular_last_column [OF assms(1)])

lemma lookup_by_rows:
  assumes "rectangular rows" and "length rows < length (hd rows)"
  shows "lookup re t (Array rows) rr =
           lookup_result_range (xl_match re t (hd rows) 1) (last rows) rr"
  using assms(2) rectangular_nonempty(1) [OF assms(1)]
  by (simp add: lookup_def py_get_0 py_get_last)

text \<open>
  Claim C4. Without a \<^verbatim>\<open>result_range\<close>, on a rectangular \<^verbatim>\<open>lookup_array\<close>: when the
  height is the longer dimension (or the two are equal) the first column is searched and the
  answer is taken from the last column, at the row found; when the width is the longer one
  the first row is searched and the answer is taken from the last row. The lookup of 5 in
  the rows (1, a), (5, b), (9, c) gives b.
\<close>

theorem lookup_array_form:
  "(rectangular rows \<and> length (hd rows) \<le> length rows \<longrightarrow>
      lookup re t (Array rows) None =
        (case xl_match re t (map hd rows) 1 of
           Inl e \<Rightarrow> Inr (Error e)
         | Inr p \<Rightarrow> Inr (map last rows ! (p - 1)))) \<and>
   (rectangular rows \<and> length rows < length (hd rows) \<longrightarrow>
      lookup re t (Array rows) None =
        (case xl_match re t (hd rows) 1 of
           Inl e \<Rightarrow> Inr (Error e)
         | Inr p \<Rightarrow> Inr (last rows ! (p - 1)))) \<and>
   lookup (\<lambda>s. None) (Number 5)
     (Array [[Number 1, Text ''a''], [Number 5, Text ''b''], [Number 9, Text ''c'']]) None
     = Inr (Text ''b'')"
proof (intro conjI impI)
  assume a: "rectangular rows \<and> length (hd rows) \<le> length rows"
  then have "lookup re t (Array rows) None =
      lookup_finish (xl_match re t (map hd rows) 1) (map last rows)"
    by (simp add: lookup_by_columns lookup_result_range_def)
  then show "lookup re t (Array rows) None =
        (case xl_match re t (map hd rows) 1 of
           Inl e \<Rightarrow> Inr (Error e)
         | Inr p \<Rightarrow> Inr (map last rows ! (p - 1)))"
    by (simp add: lookup_finish_asc)
next
  assume a: "rectangular rows \<and> length rows < length (hd rows)"
  then have len: "length (hd rows) \<le> length (last rows)"
    by (simp add: rectangular_nonempty(3))
  from a have "lookup re t (Array rows) None =
      lookup_finish (xl_match re t (hd rows) 1) (last rows)"
    by (simp add: lookup_by_rows lookup_result_range_def)
  with len show "lookup re t (Array rows) None =
        (case xl_match re t (hd rows) 1 of
           Inl e \<Rightarrow> Inr (Error e)
         | Inr p \<Rightarrow> Inr (last rows ! (p - 1)))"
    by (simp add: lookup_finish_asc)
next
  show "lookup (\<lambda>s. None) (Number 5)
     (Array [[Number 1, Text ''a''], [Number 5, Text ''b''], [Number 9, Text ''c'']]) None
     = Inr (Text ''b'')"
    by code_simp
qed

theorem lookup_array_form_witness:
  "rectangular [[Number 1, Text ''a''], [Number 5, Text ''b''], [Number 9, Text ''c'']] \<and>
   lookup (\<lambda>s. None) (Number 6)
     (Array [[Number 1, Text ''a''], [Number 5, Text ''b''], [Number 9, Text ''c'']]) None
     = Inr (Text ''b'') \<and>
   rectangular [[Number 1, Number 5, Number 9], [Text ''a'', Text ''b'', Text ''c'']] \<and>
   lookup (\<lambda>s. None) (Number 9)
     (Array [[Number 1, Number 5, Number 9], [Text ''a'', Text ''b'', Text ''c'']]) None
     = Inr (Text ''c'')"
proof -
  let ?A = "[[Number 1, Text ''a''], [Number 5, Text ''b''], [Number 9, Text ''c'']]"
  let ?B = "[[Number 1, Number 5, Number 9], [Text ''a'', Text ''b'', Text ''c'']]"
  have rA: "rectangular ?A" and rB: "rectangular ?B" by (simp_all add: rectangular_def)
  have mA: "xl_match (\<lambda>s. None) (Number 6) (map hd ?A) 1 = Inr 2" by code_simp
  have mB: "xl_match (\<lambda>s. None) (Number 9) (hd ?B) 1 = Inr 3" by code_simp
  show ?thesis
    using rA rB mA mB
      lookup_array_form [of ?A "\<lambda>s. None" "Number 6"]
      lookup_array_form [of ?B "\<lambda>s. None" "Number 9"]
    by simp
qed

text \<open>
  Claim C8. With a \<^verbatim>\<open>result_range\<close> that is not an array, or is an array that is neither
  a single row nor a single column, \<^verbatim>\<open>lookup\<close> returns the value-unavailable error for
  every target and every \<^verbatim>\<open>lookup_array\<close> (a single value or a rectangular array).
\<close>

theorem lookup_result_range_shape:
  "well_formed lookup_array \<and> result_range \<noteq> Array [] \<and> \<not> single_row_or_column result_range
   \<longrightarrow> lookup re t lookup_array (Some result_range) = Inr (Error NA_ERROR)"
proof
  assume a: "well_formed lookup_array \<and> result_range \<noteq> Array [] \<and>
             \<not> single_row_or_column result_range"
  have rr: "lookup_result_range m res (Some result_range) = Inr (Error NA_ERROR)" for m res
  proof (cases result_range)
    case (Scalar v)
    then show ?thesis by (simp add: lookup_result_range_def)
  next
    case (Array rr)
    with a have "rr \<noteq> []" "length rr \<noteq> 1" "length (hd rr) \<noteq> 1" by auto
    with Array show ?thesis by (simp add: lookup_result_range_def py_get_0 Let_def)
  qed
  show "lookup re t lookup_array (Some result_range) = Inr (Error NA_ERROR)"
  proof (cases lookup_array)
    case (Scalar v)
    then show ?thesis by (simp add: lookup_def)
  next
    case (Array rows)
    with a have r: "rectangular rows" by simp
    show ?thesis
    proof (cases "length (hd rows) \<le> length rows")
      case True
      with r Array show ?thesis by (simp add: lookup_by_columns rr)
    next
      case False
      with r Array show ?thesis by (simp add: lookup_by_rows rr)
    qed
  qed
qed

theorem lookup_result_range_shape_witness:
  "well_formed (Array [[Number 1, Text ''a''], [Number 5, Text ''b'']]) \<and>
   \<not> single_row_or_column (Array [[Number 1, Number 2], [Number 3, Number 4]]) \<and>
   lookup (\<lambda>s. None) (Number 5) (Array [[Number 1, Text ''a''], [Number 5, Text ''b'']])
     (Some (Array [[Number 1, Number 2], [Number 3, Number 4]])) = Inr (Error NA_ERROR) \<and>
   lookup (\<lambda>s. None) (Number 5) (Array [[Number 1, Text ''a''], [Number 5, Text ''b'']])
     (Some (Scalar (Number 7))) = Inr (Error NA_ERROR)"
  using lookup_result_range_shape [of "Array [[Number 1, Text ''a''], [Number 5, Text ''b'']]"
          "Array [[Number 1, Number 2], [Number 3, Number 4]]" "\<lambda>s. None" "Number 5"]
        lookup_result_range_shape [of "Array [[Number 1, Text ''a''], [Number 5, Text ''b'']]"
          "Scalar (Number 7)" "\<lambda>s. None" "Number 5"]
  by (simp add: rectangular_def)

section \<open>Properties of the address functions\<close>

declare column_letters_loop.simps [simp del] str_nat.simps [simp del]

text \<open>
  Claim C7. \<^verbatim>\<open>address(1, 1, 1)\<close> in the A1 style is \<^verbatim>\<open>$A$1\<close>, \<^verbatim>\<open>address(1, 1, 4)\<close> is
  \<^verbatim>\<open>A1\<close>, \<^verbatim>\<open>address(2, 3, 1)\<close> in the R1C1 style is \<^verbatim>\<open>R2C3\<close>, and a sheet text that is not
  empty comes first, between single quotes and followed by \<^verbatim>\<open>!\<close>.
\<close>

theorem address_formats:
  "address 1 1 1 None [] = Inr ''$A$1'' \<and>
   address 1 1 1 (Some 1) [] = Inr ''$A$1'' \<and>
   address 1 1 4 None [] = Inr ''A1'' \<and>
   address 1 1 4 (Some 1) [] = Inr ''A1'' \<and>
   address 2 3 1 (Some 0) [] = Inr ''R2C3'' \<and>
   (sheet_text \<noteq> [] \<longrightarrow>
      address r c a st sheet_text =
        (case address r c a st [] of
           Inl e \<Rightarrow> Inl e
         | Inr s \<Rightarrow> Inr ([CHR 0x27] @ sheet_text @ [CHR 0x27, CHR ''!''] @ s)))"
proof -
  have "address 1 1 1 None [] = Inr ''$A$1''" by code_simp
  moreover have "address 1 1 1 (Some 1) [] = Inr ''$A$1''" by code_simp
  moreover have "address 1 1 4 None [] = Inr ''A1''" by code_simp
  moreover have "address 1 1 4 (Some 1) [] = Inr ''A1''" by code_simp
  moreover have "address 2 3 1 (Some 0) [] = Inr ''R2C3''" by code_simp
  moreover have "sheet_text \<noteq> [] \<longrightarrow>
      address r c a st sheet_text =
        (case address r c a st [] of
           Inl e \<Rightarrow> Inl e
         | Inr s \<Rightarrow> Inr ([CHR 0x27] @ sheet_text @ [CHR 0x27, CHR ''!''] @ s))"
    by (cases "get_column_letter c") (simp_all add: address_def Let_def)
  ultimately show ?thesis by blast
qed

theorem address_formats_witness:
  "''Sheet1'' \<noteq> [] \<and>
   address 1 1 1 None ''Sheet1'' = Inr (CHR 0x27 # ''Sheet1'' @ [CHR 0x27] @ ''!$A$1'')"
  using address_formats [of "''Sheet1''" 1 1 1 None] by simp

subsection \<open>Writing and reading numbers and column letters\<close>

lemma int_of_digits_snoc:
  "int_of_digits (ds @ [c]) = int_of_digits ds * 10 + (int (of_char c) - 48)"
  by (simp add: int_of_digits_def)

lemma digit_char_code: "d < 10 \<Longrightarrow> (of_char (digit_char d) :: nat) = 48 + d"
  by (simp add: digit_char_def)

lemma is_digit_digit_char: "d < 10 \<Longrightarrow> is_digit (digit_char d)"
  by (simp add: is_digit_def digit_char_code)

lemma str_nat_digits: "\<forall>c \<in> set (str_nat n). is_digit c"
proof (induction n rule: str_nat.induct)
  case (1 n)
  show ?case
  proof (cases "n < 10")
    case True
    then show ?thesis by (subst str_nat.simps) (simp add: is_digit_digit_char)
  next
    case False
    with "1.IH" show ?thesis
      by (subst str_nat.simps) (simp add: is_digit_digit_char)
  qed
qed

lemma str_nat_nonempty: "str_nat n \<noteq> []"
  by (subst str_nat.simps) simp

lemma int_of_digits_str_nat: "int_of_digits (str_nat n) = int n"
proof (induction n rule: str_nat.induct)
  case (1 n)
  show ?case
  proof (cases "n < 10")
    case True
    then show ?thesis
      by (subst str_nat.simps) (simp add: int_of_digits_def digit_char_code)
  next
    case False
    then have "int_of_digits (str_nat n) =
        int_of_digits (str_nat (n div 10)) * 10 + (int (of_char (digit_char (n mod 10))) - 48)"
      by (subst str_nat.simps) (simp add: int_of_digits_snoc)
    also have "\<dots> = int (n div 10) * 10 + int (n mod 10)"
      using False "1.IH" by (simp add: digit_char_code)
    also have "\<dots> = int n" by (simp add: zdiv_int zmod_int)
    finally show ?thesis .
  qed
qed

lemma column_letters_loop_acc:
  "column_letters_loop n acc = acc @ column_letters_loop n []"
proof (induction n arbitrary: acc rule: less_induct)
  case (less n)
  show ?case
  proof (cases "n > 0")
    case False
    then show ?thesis by (simp add: column_letters_loop.simps)
  next
    case True
    show ?thesis
    proof (cases "n mod 26 = 0")
      case z: True
      from True have q: "n div 26 - 1 < n" by (simp add: less_imp_diff_less)
      show ?thesis
        using True z less.IH [OF q, of "acc @ [char_of (26 + 64 :: nat)]"]
          less.IH [OF q, of "[char_of (26 + 64 :: nat)]"]
        by (subst (1 2) column_letters_loop.simps) simp
    next
      case nz: False
      from True have q: "n div 26 < n" by simp
      show ?thesis
        using True nz less.IH [OF q, of "acc @ [char_of (n mod 26 + 64)]"]
          less.IH [OF q, of "[char_of (n mod 26 + 64)]"]
        by (subst (1 2) column_letters_loop.simps) simp
    qed
  qed
qed

lemma column_letters_step:
  assumes "n > 0"
  shows "rev (column_letters_loop n []) =
           (if n mod 26 = 0 then rev (column_letters_loop (n div 26 - 1) []) @ [char_of (90 :: nat)]
            else rev (column_letters_loop (n div 26) []) @ [char_of (n mod 26 + 64)])"
proof (cases "n mod 26 = 0")
  case True
  with assms have "column_letters_loop n [] =
      column_letters_loop (n div 26 - 1) [char_of (26 + 64 :: nat)]"
    by (subst column_letters_loop.simps) simp
  then show ?thesis
    using True by (simp add: column_letters_loop_acc [of _ "[char_of (90 :: nat)]"])
next
  case False
  with assms have "column_letters_loop n [] =
      column_letters_loop (n div 26) [char_of (n mod 26 + 64)]"
    by (subst column_letters_loop.simps) simp
  then show ?thesis
    using False by (simp add: column_letters_loop_acc [of _ "[char_of (n mod 26 + 64)]"])
qed

lemma column_index_snoc:
  "column_index_from_string (ls @ [c]) =
     column_index_from_string ls * 26 + (int (of_char (upper_char c)) - 64)"
  by (simp add: column_index_from_string_def)

lemma upper_letter_code:
  assumes "1 \<le> r" and "r \<le> 26"
  shows "(of_char (upper_char (char_of (r + 64))) :: nat) = r + 64"
    and "is_letter (char_of (r + 64))"
  using assms by (simp_all add: upper_char_def is_letter_def)

lemma column_letters_props:
  "column_index_from_string (rev (column_letters_loop n [])) = int n \<and>
   (\<forall>c \<in> set (rev (column_letters_loop n [])). is_letter c) \<and>
   (n > 0 \<longrightarrow> rev (column_letters_loop n []) \<noteq> [])"
proof (induction n rule: less_induct)
  case (less n)
  show ?case
  proof (cases "n > 0")
    case False
    then show ?thesis
      by (simp add: column_letters_loop.simps column_index_from_string_def)
  next
    case True
    show ?thesis
    proof (cases "n mod 26 = 0")
      case z: True
      from True have q: "n div 26 - 1 < n" by (simp add: less_imp_diff_less)
      from True z have d: "1 \<le> n div 26" by (auto simp: Suc_le_eq div_greater_zero_iff dvd_imp_le)
      have s: "rev (column_letters_loop n []) =
          rev (column_letters_loop (n div 26 - 1) []) @ [char_of (26 + 64 :: nat)]"
        using column_letters_step [OF True] z by simp
      have "int (n div 26 - 1) * 26 + 26 = int n"
      proof -
        from z obtain k where k: "n = 26 * k" by (auto simp: mod_eq_0_iff_dvd elim: dvdE)
        with d have "1 \<le> k" by simp
        then obtain k' where "k = Suc k'" by (cases k) simp_all
        with k show ?thesis by simp
      qed
      with less.IH [OF q] show ?thesis
        unfolding s using upper_letter_code [of 26]
        by (simp add: column_index_snoc)
    next
      case nz: False
      from True have q: "n div 26 < n" by simp
      have r: "1 \<le> n mod 26" "n mod 26 \<le> 26" using nz by simp_all
      have s: "rev (column_letters_loop n []) =
          rev (column_letters_loop (n div 26) []) @ [char_of (n mod 26 + 64)]"
        using column_letters_step [OF True] nz by simp
      have "int (n div 26) * 26 + int (n mod 26) = int n"
        by (simp add: zdiv_int zmod_int)
      with less.IH [OF q] show ?thesis
        unfolding s using upper_letter_code [OF r]
        by (simp add: column_index_snoc)
    qed
  qed
qed

subsection \<open>Reading back a formatted cell\<close>

lemma dollar_not_letter: "\<not> is_letter CHR ''$''" "\<not> is_digit CHR ''$''"
  by (simp_all add: is_letter_def is_digit_def)

lemma letter_not_special: "is_letter c \<Longrightarrow> c \<noteq> CHR ''$'' \<and> c \<noteq> CHR ''!'' \<and> \<not> is_digit c"
  by (auto simp: is_letter_def is_digit_def Let_def)

lemma digit_not_special: "is_digit c \<Longrightarrow> c \<noteq> CHR ''$'' \<and> c \<noteq> CHR ''!'' \<and> \<not> is_letter c"
  by (auto simp: is_letter_def is_digit_def Let_def)

lemma parse_cell_formatted:
  assumes letters: "letters \<noteq> []" "\<forall>c \<in> set letters. is_letter c"
    and digits: "digits \<noteq> []" "\<forall>c \<in> set digits. is_digit c" "1 \<le> int_of_digits digits"
    and marks: "abs_col = ''$'' \<or> abs_col = []" "abs_row = ''$'' \<or> abs_row = []"
  shows "parse_cell (abs_col @ letters @ abs_row @ digits) =
           Some ((column_index_from_string letters, int_of_digits digits), [])"
proof -
  obtain l ls where l: "letters = l # ls" using letters(1) by (cases letters) auto
  obtain d ds where d: "digits = d # ds" using digits(1) by (cases digits) auto
  have ld: "l \<noteq> CHR ''$''" using letters(2) l letter_not_special by auto
  have dd: "d \<noteq> CHR ''$''" "\<not> is_letter d" using digits(2) d digit_not_special by auto
  have s1: "drop_dollar (abs_col @ letters @ abs_row @ digits) = letters @ abs_row @ digits"
    using marks(1) l ld by auto
  have nl: "takeWhile is_letter (abs_row @ digits) = []"
    "dropWhile is_letter (abs_row @ digits) = abs_row @ digits"
    using marks(2) d dd dollar_not_letter by auto
  have tl: "takeWhile is_letter (letters @ abs_row @ digits) = letters"
    using letters(2) nl by (simp add: takeWhile_append2)
  have dl: "dropWhile is_letter (letters @ abs_row @ digits) = abs_row @ digits"
    using letters(2) nl by (simp add: dropWhile_append2)
  have s2: "drop_dollar (abs_row @ digits) = digits"
    using marks(2) d dd by auto
  have td: "takeWhile is_digit digits = digits" "dropWhile is_digit digits = []"
    using digits(2) by simp_all
  show ?thesis
    unfolding parse_cell_def s1 Let_def tl dl s2 td
    using letters(1) digits(1) digits(3) by simp
qed

lemma no_sheet_formatted:
  assumes "\<forall>c \<in> set letters. is_letter c" "\<forall>c \<in> set digits. is_digit c"
    and "abs_col = ''$'' \<or> abs_col = []" "abs_row = ''$'' \<or> abs_row = []"
  shows "split_sheet (abs_col @ letters @ abs_row @ digits) =
           ([], abs_col @ letters @ abs_row @ digits)"
proof -
  have "CHR ''!'' \<notin> set (abs_col @ letters @ abs_row @ digits)"
    using assms letter_not_special digit_not_special by auto
  then show ?thesis unfolding split_sheet_def by simp
qed

text \<open>
  Claim C5. For a point inside the grid and any \<^verbatim>\<open>abs_num\<close> (1 to 4 in particular),
  \<^verbatim>\<open>address\<close> in the A1 style returns a text, and \<^verbatim>\<open>indirect\<close> on that text gives back the
  point with the same column and row, on the sheet passed to \<^verbatim>\<open>indirect\<close>.
\<close>

theorem address_indirect_roundtrip:
  assumes "1 \<le> col" and "col \<le> MAX_COL" and "1 \<le> row_num" and "row_num \<le> MAX_ROW"
    and "abs_flag \<in> {1, 2, 3, 4}" and "style \<noteq> Some 0"
  shows "\<exists>ref_text. address row_num col abs_flag style [] = Inr ref_text \<and>
           indirect ref_text True sh = Inr (AddressCell sh col row_num)"
proof -
  define letters where "letters = rev (column_letters_loop (nat col) [])"
  define digits where "digits = str_nat (nat row_num)"
  define abs_row :: string where "abs_row = (if abs_flag \<in> {1, 2} then ''$'' else [])"
  define abs_col :: string where "abs_col = (if abs_flag \<in> {1, 3} then ''$'' else [])"
  define ref_text where "ref_text = abs_col @ letters @ abs_row @ digits"
  from assms(1,2) have c: "get_column_letter col = Inr letters"
    by (simp add: get_column_letter_def letters_def MAX_COL_def)
  from assms(3) have r: "str row_num = digits"
    by (simp add: str_def digits_def)
  have a: "address row_num col abs_flag style [] = Inr ref_text"
    using assms(6) c r
    by (simp add: address_def Let_def ref_text_def abs_row_def abs_col_def)
  have L: "column_index_from_string letters = col" "\<forall>c \<in> set letters. is_letter c"
    "letters \<noteq> []"
    using column_letters_props [of "nat col"] assms(1) by (simp_all add: letters_def)
  have D: "int_of_digits digits = row_num" "\<forall>c \<in> set digits. is_digit c" "digits \<noteq> []"
    using assms(3) int_of_digits_str_nat [of "nat row_num"] str_nat_digits [of "nat row_num"]
      str_nat_nonempty [of "nat row_num"]
    by (simp_all add: digits_def)
  have M: "abs_col = ''$'' \<or> abs_col = []" "abs_row = ''$'' \<or> abs_row = []"
    by (simp_all add: abs_col_def abs_row_def)
  have p: "parse_cell ref_text = Some ((col, row_num), [])"
    unfolding ref_text_def
    using parse_cell_formatted [OF L(3) L(2) D(3) D(2) _ M] D(1) L(1) assms(3) by simp
  have s: "split_sheet ref_text = ([], ref_text)"
    unfolding ref_text_def using L(2) D(2) M by (rule no_sheet_formatted)
  have "AddressRange_create ref_text = Some (AddressCell [] col row_num)"
    by (simp add: AddressRange_create_def s p)
  then have "indirect ref_text True sh = Inr (AddressCell sh col row_num)"
    using assms(2,4) by (simp add: indirect_def has_sheet_def)
  with a show ?thesis by blast
qed

theorem address_indirect_roundtrip_witness:
  "(1 :: int) \<le> 28 \<and> 28 \<le> MAX_COL \<and> (1 :: int) \<le> 12 \<and> 12 \<le> MAX_ROW \<and>
   address 12 28 2 None [] = Inr ''AB$12'' \<and>
   indirect ''AB$12'' True ''Sheet1'' = Inr (AddressCell ''Sheet1'' 28 12)"
proof -
  have b: "(1 :: int) \<le> 28" "28 \<le> MAX_COL" "(1 :: int) \<le> 12" "12 \<le> MAX_ROW"
    "(2 :: int) \<in> {1, 2, 3, 4}" "(None :: int option) \<noteq> Some 0"
    by (simp_all add: MAX_COL_def MAX_ROW_def)
  have a: "address 12 28 2 None [] = Inr ''AB$12''" by code_simp
  from address_indirect_roundtrip [OF b, of "''Sheet1''"] a
  have "indirect ''AB$12'' True ''Sheet1'' = Inr (AddressCell ''Sheet1'' 28 12)" by auto
  with a b show ?thesis by blast
qed

text \<open>
  For a result of positive height and width the guard of \<^verbatim>\<open>offset\<close> covers both
  corners: outside the grid at either corner gives the invalid-reference error, a 1 by 1
  result is the point and a larger one the range between the corners, on the base's sheet,
  and nothing is raised.
\<close>

lemma offset_positive_size:
  "(let height = (case height_arg of None \<Rightarrow> size_height base | Some h \<Rightarrow> h);
        width = (case width_arg of None \<Rightarrow> size_width base | Some w \<Rightarrow> w);
        new_row = row base + row_inc;
        end_row = new_row + height - 1;
        new_col = col_idx base + col_inc;
        end_col = new_col + width - 1
    in 1 \<le> height \<and> 1 \<le> width \<longrightarrow>
       offset base row_inc col_inc height_arg width_arg =
         (if new_row \<le> 0 \<or> MAX_ROW < new_row \<or> end_row \<le> 0 \<or> MAX_ROW < end_row \<or>
             new_col \<le> 0 \<or> MAX_COL < new_col \<or> end_col \<le> 0 \<or> MAX_COL < end_col
          then Inr (Inl REF_ERROR)
          else if height = 1 \<and> width = 1
          then Inr (Inr (AddressCell (sheet base) new_col new_row))
          else Inr (Inr (AddressRange (sheet base) new_col new_row end_col end_row))))"
  unfolding offset_def new_AddressRange_def Let_def by auto

text \<open>
  Claim C6 fails on the code for a height or width below 1. From the point A1 with a
  height of 0 the bottom-right corner of the result is in row 0, outside the grid; the
  guard, which tests the top-left corner from below and the bottom-right corner from above
  only, does not fire, and building the range raises \<^verbatim>\<open>ValueError\<close> where the claim has
  the invalid-reference error returned.
\<close>

theorem offset_zero_height_raises:
  "row (AddressCell [] 1 1) + 0 + 0 - 1 \<le> 0 \<and>
   offset (AddressCell [] 1 1) 0 0 (Some 0) (Some 1) = Inl ValueError \<and>
   offset (AddressCell [] 1 1) 0 0 (Some 0) (Some 1) \<noteq> Inr (Inl REF_ERROR)"
  by (simp add: offset_def new_AddressRange_def MAX_ROW_def MAX_COL_def)

end
